theory Spec2Isabelle
  imports Complex_Main "HOL-Library.AList" "HOL-Library.Log_Nat" "HOL-Library.Code_Target_Numeral"
begin

section \<open>The useRecord hook of admin-bro: state of one editable record\<close>

text \<open>
  The development embeds \<^verbatim>\<open>src/frontend/hooks/use-record.tsx\<close>: the record state held
  by the hook, the change handler \<^verbatim>\<open>handleChange\<close>, the submission handler
  \<^verbatim>\<open>handleSubmit\<close> with the callbacks it registers on the transport promise, and the
  effect that follows the \<^verbatim>\<open>initialRecord\<close> argument.

  JavaScript values are untyped at run time, so a field that TypeScript declares may still be
  \<^verbatim>\<open>undefined\<close>; the hook itself tests for that (\<^verbatim>\<open>initialRecord?.params ?? {}\<close>,
  \<^verbatim>\<open>propertyOrRecord.params\<close>, \<^verbatim>\<open>record.id ? ... : ...\<close>). Such fields are options
  here, \<open>None\<close> standing for \<^verbatim>\<open>undefined\<close>.
\<close>

subsection \<open>JavaScript values\<close>

text \<open>
  The numbers that the state and the parameters hold are the integers together with the two
  non-finite results that the hook's arithmetic can produce. The arithmetic itself is done on
  doubles, see \<open>roundedPercent\<close> below.
\<close>

datatype jsnum = Fin int | PosInfinity | NaN

text \<open>
  An object is the list of its own enumerable properties in enumeration order. An array is an
  object too, its elements stored under the index keys \<open>''0''\<close>, \<open>''1''\<close>, ... (what
  \<^verbatim>\<open>Object.keys\<close> returns for it), so \<open>JArr [(''0'', a), (''1'', b)]\<close> is the array
  \<^verbatim>\<open>[a, b]\<close>. JavaScript enumerates integer-like keys of an object before its other keys;
  the lists here keep insertion order, and the results below never depend on the order.
\<close>

datatype jsval =
    JUndefined
  | JNull
  | JBool bool
  | JNum jsnum
  | JStr string
  | JObj "(string \<times> jsval) list"
  | JArr "(string \<times> jsval) list"

type_synonym jsobj = "(string \<times> jsval) list"

text \<open>\<^verbatim>\<open>!value\<close> is true exactly for the falsy values.\<close>

fun truthy :: "jsval \<Rightarrow> bool" where
  "truthy JUndefined = False"
| "truthy JNull = False"
| "truthy (JBool b) = b"
| "truthy (JNum n) = (n \<noteq> Fin 0 \<and> n \<noteq> NaN)"
| "truthy (JStr s) = (s \<noteq> [])"
| "truthy (JObj es) = True"
| "truthy (JArr es) = True"

text \<open>
  The overlay \<^verbatim>\<open>{ ...a, ...b }\<close> of two property lists: the properties of \<open>a\<close>, with
  every property of \<open>b\<close> assigned over them. What is \<^verbatim>\<open>undefined\<close> contributes no
  property.
\<close>

definition overlay :: "(string \<times> 'a) list \<Rightarrow> (string \<times> 'a) list \<Rightarrow> (string \<times> 'a) list" where
  "overlay a b = AList.merge a b"

definition orEmpty :: "(string \<times> 'a) list option \<Rightarrow> (string \<times> 'a) list" where
  "orEmpty m = (case m of None \<Rightarrow> [] | Some es \<Rightarrow> es)"

text \<open>
  The operator \<^verbatim>\<open>in\<close> finds the own properties of an object and the inherited ones. The
  objects it is applied to in the hook are plain objects, which inherit the properties of
  \<^verbatim>\<open>Object.prototype\<close>.
\<close>

definition objectPrototype :: "string list" where
  "objectPrototype =
     [''constructor'', ''__defineGetter__'', ''__defineSetter__'', ''hasOwnProperty'',
      ''__lookupGetter__'', ''__lookupSetter__'', ''isPrototypeOf'', ''propertyIsEnumerable'',
      ''toString'', ''valueOf'', ''__proto__'', ''toLocaleString'']"

definition js_in :: "string \<Rightarrow> (string \<times> 'a) list \<Rightarrow> bool" where
  "js_in key obj = (key \<in> fst ` set obj \<or> key \<in> set objectPrototype)"

text \<open>
  The assignment \<^verbatim>\<open>obj[key] = v\<close> on a plain object replaces the own property or appends
  it. The key \<^verbatim>\<open>__proto__\<close> is the accessor of the prototype: assigning to it creates no
  own property.
\<close>

definition assign :: "string \<Rightarrow> 'a \<Rightarrow> (string \<times> 'a) list \<Rightarrow> (string \<times> 'a) list" where
  "assign key v obj = (if key = ''__proto__'' then obj else AList.update key v obj)"

subsection \<open>Path addressing: the flat package\<close>

text \<open>
  Modelled from the spec: the functions \<^verbatim>\<open>flat.flatten\<close> and \<^verbatim>\<open>flat.unflatten\<close> come
  from the package \<^verbatim>\<open>flat\<close>, which is imported by the hook and is not among the sources.
  The specification describes them as the conversion between a flat mapping of dotted or
  indexed path strings and a nested tree of objects and arrays: keys are joined with the
  fixed delimiter \<^verbatim>\<open>.\<close>, and array indices are numeric path segments. \<open>flatten\<close> walks the
  tree and assigns each leaf under its joined path; a container without properties is a leaf.
\<close>

definition newKey :: "string \<Rightarrow> string \<Rightarrow> string" where
  "newKey prev key = (if prev \<noteq> [] then prev @ ''.'' @ key else key)"

fun step :: "jsobj \<Rightarrow> string \<Rightarrow> jsobj \<Rightarrow> jsobj"
  and step_value :: "jsval \<Rightarrow> string \<Rightarrow> jsobj \<Rightarrow> jsobj" where
  "step [] prev output = output"
| "step ((key, v) # rest) prev output = step rest prev (step_value v (newKey prev key) output)"
| "step_value (JObj es) k output =
     (if es \<noteq> [] then step es k output else AList.update k (JObj es) output)"
| "step_value (JArr es) k output =
     (if es \<noteq> [] then step es k output else AList.update k (JArr es) output)"
| "step_value v k output = AList.update k v output"

definition flatten :: "jsobj \<Rightarrow> jsobj" where
  "flatten target = step target [] []"

text \<open>
  Modelled from the spec: \<^verbatim>\<open>flat.unflatten\<close>, the inverse direction (the package is not
  among the sources). Each key of the flat mapping is split at the delimiter and its value is
  stored along that path. A missing container on the way is created, as an array when the next
  segment is numeric and as an object otherwise; a path that runs into a leaf is dropped.
\<close>

fun split_on :: "char \<Rightarrow> string \<Rightarrow> string list" where
  "split_on d [] = [[]]"
| "split_on d (c # cs) =
     (if c = d then [] # split_on d cs
      else (case split_on d cs of w # ws \<Rightarrow> (c # w) # ws | [] \<Rightarrow> [[c]]))"

definition numeric :: "string \<Rightarrow> bool" where
  "numeric s = (s \<noteq> [] \<and> list_all (\<lambda>c. c \<in> set ''0123456789'') s)"

definition container :: "string \<Rightarrow> jsobj \<Rightarrow> jsval" where
  "container key2 es = (if numeric key2 then JArr es else JObj es)"

fun set_path :: "string list \<Rightarrow> jsval \<Rightarrow> jsobj \<Rightarrow> jsobj" where
  "set_path [] v recipient = recipient"
| "set_path [key1] v recipient = AList.update key1 v recipient"
| "set_path (key1 # key2 # ks) v recipient =
     (case map_of recipient key1 of
        None \<Rightarrow> AList.update key1 (container key2 (set_path (key2 # ks) v [])) recipient
      | Some JUndefined \<Rightarrow>
          AList.update key1 (container key2 (set_path (key2 # ks) v [])) recipient
      | Some (JObj es) \<Rightarrow> AList.update key1 (JObj (set_path (key2 # ks) v es)) recipient
      | Some (JArr es) \<Rightarrow> AList.update key1 (JArr (set_path (key2 # ks) v es)) recipient
      | Some _ \<Rightarrow> recipient)"

definition unflatten :: "jsobj \<Rightarrow> jsobj" where
  "unflatten target = fold (\<lambda>(key, v). set_path (split_on CHR ''.'' key) v) target []"

text \<open>
  The nested structures on which the two directions are inverse. Every key is a single path
  segment (not empty, without the delimiter) and occurs once in its container; the keys of an
  array are numeric and the keys of an object below the root are not, so that the kind of a
  container can be read off the paths of its properties. The root is always an object and
  may use any segment as a key.
\<close>

definition segment :: "string \<Rightarrow> bool" where
  "segment s = (s \<noteq> [] \<and> CHR ''.'' \<notin> set s)"

fun wf_value :: "jsval \<Rightarrow> bool"
  and wf_props :: "bool option \<Rightarrow> jsobj \<Rightarrow> bool" where
  "wf_value (JObj es) = (distinct (map fst es) \<and> wf_props (Some False) es)"
| "wf_value (JArr es) = (distinct (map fst es) \<and> wf_props (Some True) es)"
| "wf_value v = True"
| "wf_props kind [] = True"
| "wf_props kind ((k, v) # es) =
     (segment k \<and> (case kind of None \<Rightarrow> True | Some isArray \<Rightarrow> numeric k = isArray)
      \<and> wf_value v \<and> wf_props kind es)"

definition wf_nested :: "jsobj \<Rightarrow> bool" where
  "wf_nested n = (distinct (map fst n) \<and> wf_props None n)"

text \<open>
  Two notions for the proofs about the flat package. \<open>leaves\<close> lists the leaves of a nested
  structure in the order \<open>flatten\<close> visits them, each with the path of keys that leads to
  it; \<open>joined prev p\<close> is the flat key that \<open>flatten\<close> builds for the path \<open>p\<close> below \<open>prev\<close>.
\<close>

fun leaves :: "jsobj \<Rightarrow> (string list \<times> jsval) list"
  and leaves_value :: "jsval \<Rightarrow> (string list \<times> jsval) list" where
  "leaves [] = []"
| "leaves ((key, v) # rest) = map (\<lambda>(p, x). (key # p, x)) (leaves_value v) @ leaves rest"
| "leaves_value (JObj es) = (if es \<noteq> [] then leaves es else [([], JObj es)])"
| "leaves_value (JArr es) = (if es \<noteq> [] then leaves es else [([], JArr es)])"
| "leaves_value v = [([], v)]"

definition joined :: "string \<Rightarrow> string list \<Rightarrow> string" where
  "joined prev p = foldl newKey prev p"

subsection \<open>Records\<close>

text \<open>
  \<^verbatim>\<open>RecordJSON\<close> as the hook uses it: \<^verbatim>\<open>id\<close>, \<^verbatim>\<open>params\<close>, \<^verbatim>\<open>errors\<close> and
  \<^verbatim>\<open>populated\<close>, each possibly \<^verbatim>\<open>undefined\<close>, and \<open>others\<close> for every further field
  that an object spread carries along (title, actions).
\<close>

datatype recordJSON = RecordJSON
  (id_field: "string option")
  (params: "jsobj option")
  (errors: "jsobj option")
  (populated: "(string \<times> recordJSON) list option")
  (others: jsobj)

datatype error = TypeError

text \<open>
  The state \<^verbatim>\<open>useState\<close> starts from:
  \<^verbatim>\<open>{ ...initialRecord, params: initialRecord?.params ?? {}, errors: ..., populated: ... }\<close>.
\<close>

definition initialize :: "recordJSON option \<Rightarrow> recordJSON" where
  "initialize initialRecord =
     (case initialRecord of
        None \<Rightarrow> RecordJSON None (Some []) (Some []) (Some []) []
      | Some r \<Rightarrow>
          RecordJSON (id_field r) (Some (orEmpty (params r))) (Some (orEmpty (errors r)))
            (Some (orEmpty (populated r))) (others r))"

text \<open>
  The effect on \<^verbatim>\<open>[initialRecord]\<close>:
  \<^verbatim>\<open>if (initialRecord) { setRecord(initialRecord) }\<close>.
\<close>

definition useEffect_initialRecord :: "recordJSON option \<Rightarrow> recordJSON \<Rightarrow> recordJSON" where
  "useEffect_initialRecord initialRecord current =
     (case initialRecord of Some r \<Rightarrow> r | None \<Rightarrow> current)"

text \<open>
  The updater that \<^verbatim>\<open>handleChange\<close> passes to \<^verbatim>\<open>setRecord\<close> for a single field.
  \<open>returned\<close> is its return statement
  \<^verbatim>\<open>{ ...prev, params: flat.flatten(inflated), populated: populatedModified ? populatedCopy : prev.populated }\<close>.
  When \<^verbatim>\<open>prev.params\<close> is undefined there is no object to assign to or delete from, and
  the updater throws.
\<close>

definition returned :: "recordJSON \<Rightarrow> jsobj \<Rightarrow> bool \<Rightarrow> (string \<times> recordJSON) list \<Rightarrow> recordJSON" where
  "returned prev inflated populatedModified populatedCopy =
     RecordJSON (id_field prev) (Some (flatten inflated)) (errors prev)
       (if populatedModified then Some populatedCopy else populated prev) (others prev)"

definition fieldEdit ::
  "string \<Rightarrow> jsval \<Rightarrow> recordJSON option \<Rightarrow> recordJSON \<Rightarrow> error + recordJSON" where
  "fieldEdit key val incomingRecord prev =
     (case params prev of
        None \<Rightarrow> Inl TypeError
      | Some ps \<Rightarrow>
          (let inflated = unflatten ps;
               populatedCopy = orEmpty (populated prev)
           in if \<not> truthy val then
                (if js_in key populatedCopy
                 then Inr (returned prev (AList.delete key inflated) True
                             (AList.delete key populatedCopy))
                 else Inr (returned prev (AList.delete key inflated) False populatedCopy))
              else
                (case incomingRecord of
                   Some inc \<Rightarrow>
                     Inr (returned prev (assign key val inflated) True
                            (assign key inc populatedCopy))
                 | None \<Rightarrow>
                     Inr (returned prev (assign key val inflated) False populatedCopy))))"

text \<open>
  \<^verbatim>\<open>handleChange(propertyOrRecord, value, incomingRecord)\<close>, as the function from the
  previous record to the next one. The first argument is a string (\<open>Inl\<close>) or an object
  (\<open>Inr\<close>). An object that reaches the single-field branch is used as a property key, which
  converts it to the string \<^verbatim>\<open>[object Object]\<close>.
\<close>

definition objectKey :: string where
  "objectKey = ''[object Object]''"

definition handleChange ::
  "string + recordJSON \<Rightarrow> jsval \<Rightarrow> recordJSON option \<Rightarrow> recordJSON \<Rightarrow> error + recordJSON" where
  "handleChange propertyOrRecord val incomingRecord prev =
     (case propertyOrRecord of
        Inr r \<Rightarrow>
          (if val = JUndefined \<and> params r \<noteq> None then Inr r
           else fieldEdit objectKey val incomingRecord prev)
      | Inl key \<Rightarrow> fieldEdit key val incomingRecord prev)"

text \<open>
  The same updater with the identity of the \<^verbatim>\<open>populated\<close> object made explicit. The
  store holds the \<^verbatim>\<open>populated\<close> objects by address; \<^verbatim>\<open>{ ...prev.populated }\<close>
  allocates a new object at the next free address, the assignments and deletions act on that
  copy, and the function returns the new store with the address the returned record refers to.
\<close>

type_synonym store = "(string \<times> recordJSON) list list"

definition fieldEdit_populated ::
  "string \<Rightarrow> jsval \<Rightarrow> recordJSON option \<Rightarrow> store \<Rightarrow> nat option \<Rightarrow> store \<times> nat option" where
  "fieldEdit_populated key val incomingRecord h prevPopulated =
     (let populatedCopy = length h;
          h1 = h @ [case prevPopulated of None \<Rightarrow> [] | Some a \<Rightarrow> h ! a]
      in if \<not> truthy val then
           (if js_in key (h1 ! populatedCopy)
            then (h1[populatedCopy := AList.delete key (h1 ! populatedCopy)], Some populatedCopy)
            else (h1, prevPopulated))
         else
           (case incomingRecord of
              Some inc \<Rightarrow>
                (h1[populatedCopy := assign key inc (h1 ! populatedCopy)], Some populatedCopy)
            | None \<Rightarrow> (h1, prevPopulated)))"

text \<open>
  \<open>refers h p m\<close>: in the store \<open>h\<close> the reference \<open>p\<close> stands for the value \<open>m\<close> of a
  \<^verbatim>\<open>populated\<close> field, that is, both are \<^verbatim>\<open>undefined\<close> or \<open>p\<close> is the address of an
  allocated object with the properties \<open>m\<close>.
\<close>

definition refers :: "store \<Rightarrow> nat option \<Rightarrow> (string \<times> recordJSON) list option \<Rightarrow> bool" where
  "refers h p m =
     (case p of None \<Rightarrow> m = None | Some a \<Rightarrow> a < length h \<and> m = Some (h ! a))"

subsection \<open>Merging a server response\<close>

record notice =
  message :: string
  type :: string

record recordActionResponse =
  record' :: recordJSON
  notice :: "notice option"

text \<open>
  Modelled from the spec: \<^verbatim>\<open>mergeRecordResponse\<close> is imported from
  \<^verbatim>\<open>../utils/merge-record-response\<close>, which is not among the sources. By the
  specification the merged record takes \<^verbatim>\<open>params\<close> and \<^verbatim>\<open>errors\<close> from the server
  record, its \<^verbatim>\<open>populated\<close> is the previous one with the server record's entries overlaid,
  and its \<^verbatim>\<open>id\<close> is the server record's if present and the previous one otherwise. The
  specification names no further field; \<open>others\<close> is overlaid like \<^verbatim>\<open>populated\<close>.
\<close>

definition mergeRecordResponse :: "recordJSON \<Rightarrow> recordActionResponse \<Rightarrow> recordJSON" where
  "mergeRecordResponse previous response =
     (let serverRecord = record' response
      in RecordJSON
           (case id_field serverRecord of Some i \<Rightarrow> Some i | None \<Rightarrow> id_field previous)
           (params serverRecord)
           (errors serverRecord)
           (Some (overlay (orEmpty (populated previous)) (orEmpty (populated serverRecord))))
           (overlay (others previous) (others serverRecord)))"

subsection \<open>The hook's state and the submission\<close>

text \<open>
  Besides the three state variables the state logs the two effects of the hook that leave
  it: the notices handed to \<^verbatim>\<open>onNotice\<close> and the requests handed to the API client.
  \<^verbatim>\<open>recordToFormData\<close> is an import outside the sources and a parameter here; a
  \<^verbatim>\<open>FormData\<close> is the list of its entries.
\<close>

type_synonym formData = "(string \<times> string) list"

fun formData_set :: "string \<Rightarrow> string \<Rightarrow> formData \<Rightarrow> formData" where
  "formData_set k v [] = [(k, v)]"
| "formData_set k v ((k', v') # fd) =
     (if k' = k then (k, v) # filter (\<lambda>e. fst e \<noteq> k) fd else (k', v') # formData_set k v fd)"

datatype apiMethod = RecordAction | ResourceAction

record request =
  apiMethod :: apiMethod
  resourceId :: string
  actionName :: string
  recordId :: "string option"
  data :: formData

record hook =
  record_state :: recordJSON
  loading :: bool
  progress :: jsnum
  notices :: "notice list"
  requests :: "request list"

text \<open>The state after the first render and its effect.\<close>

definition useRecord :: "recordJSON option \<Rightarrow> hook" where
  "useRecord initialRecord =
     \<lparr>record_state = useEffect_initialRecord initialRecord (initialize initialRecord),
      loading = False, progress = Fin 0, notices = [], requests = []\<rparr>"

text \<open>
  \<^verbatim>\<open>handleSubmit(customParams)\<close> up to the point where the promise is created:
  \<^verbatim>\<open>record.id ? api.recordAction({...params, actionName: 'edit', recordId: record.id})
            : api.resourceAction({...params, actionName: 'new'})\<close>.
\<close>

definition handleSubmit ::
  "(recordJSON \<Rightarrow> formData) \<Rightarrow> string \<Rightarrow> (string \<times> string) list \<Rightarrow> hook \<Rightarrow> hook" where
  "handleSubmit recordToFormData rid customParams st =
     (let formData = fold (\<lambda>(key, v). formData_set key v) customParams
                       (recordToFormData (record_state st));
          req = (case id_field (record_state st) of
                   None \<Rightarrow>
                     \<lparr>apiMethod = ResourceAction, resourceId = rid, actionName = ''new'',
                      recordId = None, data = formData\<rparr>
                 | Some i \<Rightarrow>
                     if i \<noteq> [] then
                       \<lparr>apiMethod = RecordAction, resourceId = rid, actionName = ''edit'',
                        recordId = Some i, data = formData\<rparr>
                     else
                       \<lparr>apiMethod = ResourceAction, resourceId = rid, actionName = ''new'',
                        recordId = None, data = formData\<rparr>)
      in st\<lparr>loading := True, requests := requests st @ [req]\<rparr>)"

text \<open>
  The arithmetic of \<^verbatim>\<open>Math.round((e.loaded * 100) / e.total)\<close> is IEEE 754 double
  arithmetic. A double here is a non-negative rational, \<^verbatim>\<open>Infinity\<close> or \<^verbatim>\<open>NaN\<close>
  (the byte counts are not negative). \<open>fl\<close> rounds a non-negative rational to the nearest
  double, a tie to the even significand: the significand has 53 bits, the exponent of the
  last bit is at least \<open>-1074\<close> (below that the numbers are subnormal), and a result of
  \<open>2 ^ 1024\<close> or more is \<^verbatim>\<open>Infinity\<close>.
\<close>

datatype double = Finite rat | Infinite | NotANumber

definition nearest_even :: "rat \<Rightarrow> int" where
  "nearest_even y =
     (let q = \<lfloor>y\<rfloor>; f = y - of_int q
      in if 2 * f < 1 then q else if 1 < 2 * f then q + 1 else if even q then q else q + 1)"

definition exponent :: "rat \<Rightarrow> int" where
  "exponent x =
     (let (n, d) = quotient_of x;
          k0 = bitlen n - bitlen d - 53
      in max (- 1074) (if 2 ^ 53 \<le> x / 2 powi k0 then k0 + 1 else k0))"

definition fl :: "rat \<Rightarrow> double" where
  "fl x =
     (if x = 0 then Finite 0
      else (let k = exponent x;
                v = of_int (nearest_even (x / 2 powi k)) * 2 powi k
            in if 2 ^ 1024 \<le> v then Infinite else Finite v))"

text \<open>
  The operators \<^verbatim>\<open>*\<close> and \<^verbatim>\<open>/\<close> compute the exact result and round it. A division by
  zero yields \<^verbatim>\<open>NaN\<close> for \<^verbatim>\<open>0 / 0\<close> and \<^verbatim>\<open>Infinity\<close> otherwise. \<^verbatim>\<open>Math.round\<close>
  is exact, rounds a half upwards as \<^const>\<open>round\<close> does, and returns \<^verbatim>\<open>Infinity\<close> and
  \<^verbatim>\<open>NaN\<close> unchanged. The byte counts of a progress event are unsigned integers, read as
  numbers.
\<close>

fun multiply :: "double \<Rightarrow> double \<Rightarrow> double" where
  "multiply (Finite a) (Finite b) = fl (a * b)"
| "multiply NotANumber y = NotANumber"
| "multiply x NotANumber = NotANumber"
| "multiply Infinite (Finite b) = (if b = 0 then NotANumber else Infinite)"
| "multiply (Finite a) Infinite = (if a = 0 then NotANumber else Infinite)"
| "multiply Infinite Infinite = Infinite"

fun divide_double :: "double \<Rightarrow> double \<Rightarrow> double" where
  "divide_double (Finite a) (Finite b) =
     (if b = 0 then (if a = 0 then NotANumber else Infinite) else fl (a / b))"
| "divide_double NotANumber y = NotANumber"
| "divide_double x NotANumber = NotANumber"
| "divide_double Infinite (Finite b) = Infinite"
| "divide_double (Finite a) Infinite = Finite 0"
| "divide_double Infinite Infinite = NotANumber"

fun math_round :: "double \<Rightarrow> jsnum" where
  "math_round (Finite v) = Fin (round v)"
| "math_round Infinite = PosInfinity"
| "math_round NotANumber = NaN"

definition toNumber :: "nat \<Rightarrow> double" where
  "toNumber n = fl (of_nat n)"

definition roundedPercent :: "nat \<Rightarrow> nat \<Rightarrow> jsnum" where
  "roundedPercent loaded total' =
     math_round (divide_double (multiply (toNumber loaded) (Finite 100)) (toNumber total'))"

definition errorNotice :: notice where
  "errorNotice =
     \<lparr>message = ''There was an error updating record, Check out console to see more information.'',
      type = ''error''\<rparr>"

text \<open>
  What the transport does with a submission: it calls \<^verbatim>\<open>onUploadProgress\<close> any number of
  times and then settles the promise, which runs the \<^verbatim>\<open>then\<close> or the \<^verbatim>\<open>catch\<close>
  callback.
\<close>

datatype transportEvent =
    UploadProgress nat nat
  | Resolved recordActionResponse
  | Rejected

fun onTransport :: "transportEvent \<Rightarrow> hook \<Rightarrow> hook" where
  "onTransport (UploadProgress loaded total') st =
     st\<lparr>progress := roundedPercent loaded total'\<rparr>"
| "onTransport (Resolved response) st =
     st\<lparr>notices := notices st @ (case notice response of Some n \<Rightarrow> [n] | None \<Rightarrow> []),
        record_state := mergeRecordResponse (record_state st) response,
        progress := Fin 0,
        loading := False\<rparr>"
| "onTransport Rejected st =
     st\<lparr>notices := notices st @ [errorNotice], progress := Fin 0, loading := False\<rparr>"

text \<open>The progress values recorded in the state, one after each event.\<close>

fun recorded :: "transportEvent list \<Rightarrow> hook \<Rightarrow> jsnum list" where
  "recorded [] st = []"
| "recorded (e # es) st = progress (onTransport e st) # recorded es (onTransport e st)"






section \<open>Path addressing\<close>

lemma step_leaves:
  "step es prev out = fold (\<lambda>(p, x). AList.update (joined prev p) x) (leaves es) out"
  "step_value v k out = fold (\<lambda>(p, x). AList.update (joined k p) x) (leaves_value v) out"
proof (induction es prev out and v k out rule: step_step_value.induct)
  case (2 key v rest prev out)
  then show ?case
    by (simp add: joined_def fold_map case_prod_unfold comp_def)
qed (simp_all add: joined_def)

lemma update_fresh: "k \<notin> fst ` set al \<Longrightarrow> AList.update k v al = al @ [(k, v)]"
  by (induction al) auto

lemma fold_update_fresh:
  "distinct (map fst kvs) \<Longrightarrow> fst ` set kvs \<inter> fst ` set out = {}
   \<Longrightarrow> fold (\<lambda>(k, v). AList.update k v) kvs out = out @ kvs"
proof (induction kvs arbitrary: out)
  case Nil
  then show ?case by simp
next
  case (Cons kv kvs)
  obtain k v where kv: "kv = (k, v)" by (cases kv)
  have "AList.update k v out = out @ [(k, v)]"
    using Cons.prems(2) kv by (intro update_fresh) auto
  moreover have "fold (\<lambda>(k, v). AList.update k v) kvs (out @ [(k, v)]) = (out @ [(k, v)]) @ kvs"
    using Cons.prems kv by (intro Cons.IH) auto
  ultimately show ?case by (simp add: kv)
qed

lemma split_on_no_delim: "d \<notin> set w \<Longrightarrow> split_on d w = [w]"
  by (induction w) auto

lemma split_on_append: "d \<notin> set w \<Longrightarrow> split_on d (w @ d # r) = w # split_on d r"
  by (induction w) auto

lemma split_on_concat:
  "d \<notin> set w \<Longrightarrow> list_all (\<lambda>s. d \<notin> set s) ks
   \<Longrightarrow> split_on d (w @ concat (map (\<lambda>k. d # k) ks)) = w # ks"
proof (induction ks arbitrary: w)
  case Nil
  then show ?case by (simp add: split_on_no_delim)
next
  case (Cons k ks)
  have "split_on d (w @ d # (k @ concat (map (\<lambda>k. d # k) ks))) = w # split_on d (k @ concat (map (\<lambda>k. d # k) ks))"
    using Cons.prems(1) by (rule split_on_append)
  also have "split_on d (k @ concat (map (\<lambda>k. d # k) ks)) = k # ks"
    using Cons.prems(2) by (intro Cons.IH) auto
  finally show ?case by simp
qed

lemma joined_nonempty_prev:
  "prev \<noteq> [] \<Longrightarrow> joined prev ks = prev @ concat (map (\<lambda>k. CHR ''.'' # k) ks)"
  unfolding joined_def
  by (induction ks arbitrary: prev) (auto simp: newKey_def)

lemma split_joined:
  assumes "p \<noteq> []" "list_all segment p"
  shows "split_on CHR ''.'' (joined [] p) = p"
proof -
  obtain k ks where p: "p = k # ks" using assms(1) by (cases p) auto
  have k: "k \<noteq> []" "CHR ''.'' \<notin> set k" and ks: "list_all (\<lambda>s. CHR ''.'' \<notin> set s) ks"
    using assms(2) p by (auto simp: segment_def list_all_iff)
  have "joined [] p = joined k ks" by (simp add: p joined_def newKey_def)
  also have "\<dots> = k @ concat (map (\<lambda>k. CHR ''.'' # k) ks)" using k(1) by (rule joined_nonempty_prev)
  finally show ?thesis using split_on_concat [OF k(2) ks] by (simp add: p)
qed


lemma leaves_nonempty:
  "es \<noteq> [] \<Longrightarrow> leaves es \<noteq> []"
  "leaves_value v \<noteq> []"
  by (induction es and v rule: leaves_leaves_value.induct) auto

lemma container_cases: "container k2 = JObj \<or> container k2 = JArr"
  by (cases "numeric k2") (auto simp: container_def [abs_def])

lemma descend:
  assumes "C = JObj \<or> C = JArr"
  shows "list_all (\<lambda>(p, x). p \<noteq> []) ps \<Longrightarrow> map_of acc k = Some (C es0)
    \<Longrightarrow> fold (\<lambda>(p, x). set_path (k # p) x) ps acc
        = AList.update k (C (fold (\<lambda>(p, x). set_path p x) ps es0)) acc"
proof (induction ps arbitrary: acc es0)
  case Nil
  then show ?case by (simp add: update_triv)
next
  case (Cons px ps)
  obtain p x where px: "px = (p, x)" by (cases px)
  obtain k2 ks where p: "p = k2 # ks" using Cons.prems(1) px by (cases p) auto
  let ?acc1 = "AList.update k (C (set_path (k2 # ks) x es0)) acc"
  have first: "set_path (k # k2 # ks) x acc = ?acc1"
    using Cons.prems(2) assms by auto
  have "map_of ?acc1 k = Some (C (set_path (k2 # ks) x es0))"
    by (simp add: update_conv')
  from Cons.IH [OF _ this] Cons.prems(1)
  have "fold (\<lambda>(p, x). set_path (k # p) x) ps ?acc1
        = AList.update k (C (fold (\<lambda>(p, x). set_path p x) ps (set_path (k2 # ks) x es0))) acc"
    by simp
  then show ?case by (simp add: px p first del: set_path.simps)
qed

lemma create:
  assumes "list_all (\<lambda>(p, x). p \<noteq> []) ps" and "map_of acc k = None"
  shows "fold (\<lambda>(p, x). set_path (k # p) x) ((k2 # ks, x) # ps) acc
        = AList.update k (container k2 (fold (\<lambda>(p, x). set_path p x) ((k2 # ks, x) # ps) [])) acc"
proof -
  let ?acc1 = "AList.update k (container k2 (set_path (k2 # ks) x [])) acc"
  have first: "set_path (k # k2 # ks) x acc = ?acc1"
    using assms(2) by simp
  have "map_of ?acc1 k = Some (container k2 (set_path (k2 # ks) x []))"
    by (simp add: update_conv')
  from descend [OF container_cases assms(1) this]
  show ?thesis by (simp add: first del: set_path.simps)
qed


lemma wf_props_keys:
  "wf_props kind es \<Longrightarrow> (k, v) \<in> set es
   \<Longrightarrow> segment k \<and> wf_value v \<and> (\<forall>a. kind = Some a \<longrightarrow> numeric k = a)"
  by (induction es) (auto split: option.splits)

lemma leaves_paths:
  "wf_props kind es \<Longrightarrow> (p, x) \<in> set (leaves es)
     \<Longrightarrow> p \<noteq> [] \<and> list_all segment p \<and> hd p \<in> fst ` set es"
  "wf_value v \<Longrightarrow> (p, x) \<in> set (leaves_value v) \<Longrightarrow> list_all segment p"
proof (induction es and v arbitrary: kind p x and p x rule: leaves_leaves_value.induct)
  case (2 key v rest)
  from "2.prems"(1) have wf: "segment key" "wf_value v" "wf_props kind rest" by auto
  from "2.prems"(2) consider
    (here) q where "p = key # q" "(q, x) \<in> set (leaves_value v)"
    | (there) "(p, x) \<in> set (leaves rest)"
    by auto
  then show ?case
  proof cases
    case here
    with "2.IH"(1) [OF wf(2)] wf(1) show ?thesis by simp
  next
    case there
    with "2.IH"(2) [OF wf(3)] show ?thesis by auto
  qed
next
  case (3 es)
  then show ?case by (auto split: if_splits)
next
  case (4 es)
  then show ?case by (auto split: if_splits)
qed auto

lemma leaves_distinct:
  "wf_props kind es \<Longrightarrow> distinct (map fst es) \<Longrightarrow> distinct (map fst (leaves es))"
  "wf_value v \<Longrightarrow> distinct (map fst (leaves_value v))"
proof (induction es and v arbitrary: kind rule: leaves_leaves_value.induct)
  case (2 key v rest)
  from "2.prems"(1) have wf: "segment key" "wf_value v" "wf_props kind rest" by auto
  have a: "distinct (map fst (map (\<lambda>(p, x). (key # p, x)) (leaves_value v)))"
    using "2.IH"(1) [OF wf(2)] by (simp add: distinct_map comp_def case_prod_unfold inj_on_def)
  have b: "distinct (map fst (leaves rest))"
    using "2.IH"(2) [OF wf(3)] "2.prems"(2) by simp
  have c: "fst ` set (map (\<lambda>(p, x). (key # p, x)) (leaves_value v)) \<inter> fst ` set (leaves rest) = {}"
  proof -
    have "hd p \<noteq> key" if "(p, x) \<in> set (leaves rest)" for p x
      using leaves_paths(1) [OF wf(3) that] "2.prems"(2) by auto
    then show ?thesis by fastforce
  qed
  from a b c show ?case by (simp add: image_image comp_def)
qed (auto split: if_splits)


lemma rebuild_container:
  assumes "es \<noteq> []" and "wf_props (Some isArray) es"
    and "fold (\<lambda>(p, x). set_path p x) (leaves es) [] = es"
    and "k \<notin> fst ` set acc"
  shows "fold (\<lambda>(p, x). set_path (k # p) x) (leaves es) acc
         = acc @ [(k, (if isArray then JArr es else JObj es))]"
proof -
  obtain k2 v2 rest where es: "es = (k2, v2) # rest" using assms(1) by (cases es) auto
  obtain q x0 qs where lv: "leaves_value v2 = (q, x0) # qs"
    using leaves_nonempty(2) [of v2] by (cases "leaves_value v2") auto
  define ps where "ps = map (\<lambda>(p, x). (k2 # p, x)) qs @ leaves rest"
  have l: "leaves es = (k2 # q, x0) # ps" by (simp add: es lv ps_def)
  have "p \<noteq> []" if "(p, x) \<in> set (leaves es)" for p x
    using leaves_paths(1) [OF assms(2) that] by simp
  then have ne: "list_all (\<lambda>(p, x). p \<noteq> []) ps" by (auto simp: l list_all_iff)
  have k2: "numeric k2 = isArray" using assms(2) es by simp
  have none: "map_of acc k = None" using assms(4) by (simp add: map_of_eq_None_iff)
  have "fold (\<lambda>(p, x). set_path (k # p) x) (leaves es) acc
        = AList.update k (container k2 (fold (\<lambda>(p, x). set_path p x) (leaves es) [])) acc"
    unfolding l by (rule create [OF ne none])
  also have "\<dots> = AList.update k (if isArray then JArr es else JObj es) acc"
    by (simp add: assms(3) container_def k2)
  also have "\<dots> = acc @ [(k, (if isArray then JArr es else JObj es))]"
    using assms(4) by (rule update_fresh)
  finally show ?thesis .
qed

lemma rebuild:
  "wf_props kind es \<Longrightarrow> distinct (map fst es) \<Longrightarrow> fst ` set es \<inter> fst ` set acc = {}
     \<Longrightarrow> fold (\<lambda>(p, x). set_path p x) (leaves es) acc = acc @ es"
  "wf_value v \<Longrightarrow> k \<notin> fst ` set acc
     \<Longrightarrow> fold (\<lambda>(p, x). set_path (k # p) x) (leaves_value v) acc = acc @ [(k, v)]"
proof (induction es and v arbitrary: kind acc and k acc rule: leaves_leaves_value.induct)
  case 1
  then show ?case by simp
next
  case (2 key v rest)
  from "2.prems"(1) have wf: "wf_value v" "wf_props kind rest" by auto
  have fresh: "key \<notin> fst ` set acc" using "2.prems"(3) by auto
  have a: "fold (\<lambda>(p, x). set_path (key # p) x) (leaves_value v) acc = acc @ [(key, v)]"
    using wf(1) fresh by (rule "2.IH"(1))
  have b: "fold (\<lambda>(p, x). set_path p x) (leaves rest) (acc @ [(key, v)]) = (acc @ [(key, v)]) @ rest"
    using wf(2) "2.prems"(2,3) by (intro "2.IH"(2)) auto
  have "fold (\<lambda>(p, x). set_path p x) (map (\<lambda>(p, x). (key # p, x)) (leaves_value v)) acc
        = fold (\<lambda>(p, x). set_path (key # p) x) (leaves_value v) acc"
    by (simp add: fold_map comp_def case_prod_unfold)
  with a b show ?case by simp
next
  case (3 es)
  show ?case
  proof (cases "es = []")
    case True
    then show ?thesis using "3.prems"(2) by (simp add: update_fresh)
  next
    case False
    from "3.prems"(1) have wf: "wf_props (Some False) es" "distinct (map fst es)" by auto
    have "fold (\<lambda>(p, x). set_path p x) (leaves es) [] = es"
      using "3.IH" [OF False wf] by simp
    from rebuild_container [OF False wf(1) this "3.prems"(2)] False show ?thesis by simp
  qed
next
  case (4 es)
  show ?case
  proof (cases "es = []")
    case True
    then show ?thesis using "4.prems"(2) by (simp add: update_fresh)
  next
    case False
    from "4.prems"(1) have wf: "wf_props (Some True) es" "distinct (map fst es)" by auto
    have "fold (\<lambda>(p, x). set_path p x) (leaves es) [] = es"
      using "4.IH" [OF False wf] by simp
    from rebuild_container [OF False wf(1) this "4.prems"(2)] False show ?thesis by simp
  qed
qed (simp_all add: update_fresh)

lemma joined_inj:
  assumes "p \<noteq> []" "list_all segment p" "q \<noteq> []" "list_all segment q"
    and "joined [] p = joined [] q"
  shows "p = q"
proof -
  have "p = split_on CHR ''.'' (joined [] p)" using split_joined [OF assms(1,2)] by (rule sym)
  also have "\<dots> = split_on CHR ''.'' (joined [] q)" by (simp only: assms(5))
  also have "\<dots> = q" using assms(3,4) by (rule split_joined)
  finally show ?thesis .
qed

lemma flatten_leaves:
  assumes "wf_nested n"
  shows "flatten n = map (\<lambda>(p, x). (joined [] p, x)) (leaves n)"
proof -
  from assms have wf: "wf_props None n" "distinct (map fst n)" by (auto simp: wf_nested_def)
  have paths: "p \<noteq> [] \<and> list_all segment p" if "(p, x) \<in> set (leaves n)" for p x
    using leaves_paths(1) [OF wf(1) that] by simp
  have "inj_on (\<lambda>px. joined [] (fst px)) (set (leaves n))"
  proof (rule inj_onI)
    fix a b assume ab: "a \<in> set (leaves n)" "b \<in> set (leaves n)" "joined [] (fst a) = joined [] (fst b)"
    have "fst a = fst b"
      using paths [of "fst a" "snd a"] paths [of "fst b" "snd b"] ab by (intro joined_inj) auto
    moreover have "distinct (map fst (leaves n))" using wf by (rule leaves_distinct(1))
    ultimately show "a = b" using ab(1,2) by (metis eq_key_imp_eq_value prod.collapse)
  qed
  then have d: "distinct (map fst (map (\<lambda>(p, x). (joined [] p, x)) (leaves n)))"
    using leaves_distinct(1) [OF wf]
    by (simp add: distinct_map comp_def case_prod_unfold inj_on_def) 
  have "flatten n = fold (\<lambda>(k, v). AList.update k v) (map (\<lambda>(p, x). (joined [] p, x)) (leaves n)) []"
    by (simp add: flatten_def step_leaves(1) fold_map comp_def case_prod_unfold)
  also have "\<dots> = [] @ map (\<lambda>(p, x). (joined [] p, x)) (leaves n)"
    using d by (intro fold_update_fresh) auto
  finally show ?thesis by simp
qed

lemma unflatten_flatten:
  assumes "wf_nested n"
  shows "unflatten (flatten n) = n"
proof -
  from assms have wf: "wf_props None n" "distinct (map fst n)" by (auto simp: wf_nested_def)
  have paths: "split_on CHR ''.'' (joined [] p) = p" if "(p, x) \<in> set (leaves n)" for p x
    using leaves_paths(1) [OF wf(1) that] by (intro split_joined) auto
  have "unflatten (flatten n) = fold (\<lambda>(p, x). set_path (split_on CHR ''.'' (joined [] p)) x) (leaves n) []"
    by (simp add: unflatten_def flatten_leaves [OF assms] fold_map comp_def case_prod_unfold)
  also have "\<dots> = fold (\<lambda>(p, x). set_path p x) (leaves n) []"
    by (rule fold_cong) (auto simp: paths)
  also have "\<dots> = [] @ n" using wf by (intro rebuild(1)) auto
  finally show ?thesis by simp
qed

text \<open>
  C1 (round trip). For every well-formed nested structure \<open>n\<close>, unflattening its flat form
  gives \<open>n\<close> back, and for the flat mapping \<open>flatten n\<close> produced from it, flattening the
  unflattened mapping gives that mapping back. Numeric segments are the non-empty strings of
  decimal digits.
\<close>

theorem flatten_unflatten_round_trip:
  assumes "wf_nested n"
  shows "unflatten (flatten n) = n \<and> flatten (unflatten (flatten n)) = flatten n"
  using unflatten_flatten [OF assms] by simp

theorem flatten_unflatten_round_trip_witness:
  "wf_nested [(''name'', JStr ''Alice''),
              (''address'', JObj [(''city'', JStr ''Paris''), (''geo'', JObj [])]),
              (''tags'', JArr [(''0'', JStr ''a''), (''1'', JObj [(''x'', JNull)])])]
   \<and> flatten [(''name'', JStr ''Alice''),
              (''address'', JObj [(''city'', JStr ''Paris''), (''geo'', JObj [])]),
              (''tags'', JArr [(''0'', JStr ''a''), (''1'', JObj [(''x'', JNull)])])]
     = [(''name'', JStr ''Alice''), (''address.city'', JStr ''Paris''),
        (''address.geo'', JObj []), (''tags.0'', JStr ''a''), (''tags.1.x'', JNull)]
   \<and> unflatten [(''name'', JStr ''Alice''), (''address.city'', JStr ''Paris''),
        (''address.geo'', JObj []), (''tags.0'', JStr ''a''), (''tags.1.x'', JNull)]
     = [(''name'', JStr ''Alice''),
        (''address'', JObj [(''city'', JStr ''Paris''), (''geo'', JObj [])]),
        (''tags'', JArr [(''0'', JStr ''a''), (''1'', JObj [(''x'', JNull)])])]"
proof -
  have wf: "wf_nested [(''name'', JStr ''Alice''),
              (''address'', JObj [(''city'', JStr ''Paris''), (''geo'', JObj [])]),
              (''tags'', JArr [(''0'', JStr ''a''), (''1'', JObj [(''x'', JNull)])])]"
    by (simp add: wf_nested_def segment_def numeric_def)
  have fl: "flatten [(''name'', JStr ''Alice''),
              (''address'', JObj [(''city'', JStr ''Paris''), (''geo'', JObj [])]),
              (''tags'', JArr [(''0'', JStr ''a''), (''1'', JObj [(''x'', JNull)])])]
     = [(''name'', JStr ''Alice''), (''address.city'', JStr ''Paris''),
        (''address.geo'', JObj []), (''tags.0'', JStr ''a''), (''tags.1.x'', JNull)]"
    by (simp add: flatten_def newKey_def)
  from flatten_unflatten_round_trip [OF wf] wf fl show ?thesis by simp
qed

section \<open>Changes to the record\<close>

lemma fieldEdit_result:
  assumes "params prev = Some ps"
  shows "fieldEdit key val inc prev =
     Inr (returned prev
            (if \<not> truthy val then AList.delete key (unflatten ps)
             else assign key val (unflatten ps))
            ((\<not> truthy val \<and> js_in key (orEmpty (populated prev)))
              \<or> (truthy val \<and> inc \<noteq> None))
            (if \<not> truthy val then AList.delete key (orEmpty (populated prev))
             else assign key (the inc) (orEmpty (populated prev))))"
  using assms
  by (auto simp: fieldEdit_def Let_def returned_def split: option.splits)

lemma fieldEdit_populated_cases:
  "fieldEdit_populated key val inc h p =
     (if (\<not> truthy val \<and> js_in key (case p of None \<Rightarrow> [] | Some a \<Rightarrow> h ! a))
      then (h @ [AList.delete key (case p of None \<Rightarrow> [] | Some a \<Rightarrow> h ! a)], Some (length h))
      else if truthy val \<and> inc \<noteq> None
      then (h @ [assign key (the inc) (case p of None \<Rightarrow> [] | Some a \<Rightarrow> h ! a)], Some (length h))
      else (h @ [case p of None \<Rightarrow> [] | Some a \<Rightarrow> h ! a], p))"
  by (auto simp: fieldEdit_populated_def Let_def split: option.splits)

lemma js_in_own: "key \<notin> set objectPrototype \<Longrightarrow> js_in key obj = (key \<in> fst ` set obj)"
  by (simp add: js_in_def)

lemma assign_update: "key \<notin> set objectPrototype \<Longrightarrow> assign key v obj = AList.update key v obj"
  by (auto simp: assign_def objectPrototype_def)

lemma wf_props_append: "wf_props kind (xs @ ys) = (wf_props kind xs \<and> wf_props kind ys)"
  by (induction xs) auto

lemma delete_appended: "k \<notin> fst ` set al \<Longrightarrow> AList.delete k (al @ [(k, v)]) = al"
  by (induction al) auto

text \<open>
  A key of the top level that is a single segment is set and cleared again without a trace:
  the assignment appends the property to the unflattened parameters and the deletion removes
  it.
\<close>

lemma edit_then_clear_top_level:
  assumes "wf_nested n" and "params r = Some (flatten n)"
    and "segment key" and "key \<notin> fst ` set n" and "key \<notin> fst ` set (orEmpty (populated r))"
    and "truthy val" and "wf_value val" and "key \<notin> set objectPrototype"
  shows "\<exists>r1 r2. handleChange (Inl key) val None r = Inr r1
           \<and> handleChange (Inl key) JUndefined None r1 = Inr r2
           \<and> params r1 = Some (flatten (n @ [(key, val)]))
           \<and> params r2 = params r \<and> populated r2 = populated r"
proof -
  have rt: "unflatten (flatten n) = n" using assms(1) by (rule unflatten_flatten)
  have wf1: "wf_nested (n @ [(key, val)])"
    using assms(1,3,4,7) by (auto simp: wf_nested_def wf_props_append)
  have rt1: "unflatten (flatten (n @ [(key, val)])) = n @ [(key, val)]"
    using wf1 by (rule unflatten_flatten)
  let ?r1 = "RecordJSON (id_field r) (Some (flatten (n @ [(key, val)]))) (errors r) (populated r)
               (others r)"
  have e1: "handleChange (Inl key) val None r = Inr ?r1"
    using assms(2,4,6)
    by (simp add: handleChange_def fieldEdit_def returned_def rt update_fresh
        assign_update [OF assms(8)])
  have e2: "handleChange (Inl key) JUndefined None ?r1
            = Inr (RecordJSON (id_field r) (Some (flatten n)) (errors r) (populated r) (others r))"
    using assms(4,5)
    by (simp add: handleChange_def fieldEdit_def returned_def rt1 delete_appended
        js_in_own [OF assms(8)])
  from e1 e2 assms(2) show ?thesis by simp
qed

text \<open>
  C2 (edit then clear). The claim: on every record in which the path \<^verbatim>\<open>a.b\<close> is not
  populated, setting \<^verbatim>\<open>a.b\<close> to a non-falsy value and then to \<^verbatim>\<open>undefined\<close> yields the
  \<open>params\<close> and the \<open>populated\<close> of the record one started from. The code does not do
  this. The clearing edit runs \<^verbatim>\<open>delete inflated[key]\<close> on the unflattened parameters,
  which hold the value under \<^verbatim>\<open>a\<close> and then \<^verbatim>\<open>b\<close> and have no property named
  \<^verbatim>\<open>a.b\<close>: nothing is deleted. On the empty record, and on the record whose parameters are
  \<^verbatim>\<open>{"a.c": "keep"}\<close>, the path has no value and is not populated; after the two edits
  the parameters hold \<^verbatim>\<open>"x"\<close> at \<^verbatim>\<open>a.b\<close>, while \<open>populated\<close> is as before.
\<close>

theorem edit_then_clear_nested_path:
  "handleChange (Inl ''a.b'') (JStr ''x'') None (RecordJSON None (Some []) (Some []) (Some []) [])
     = Inr (RecordJSON None (Some [(''a.b'', JStr ''x'')]) (Some []) (Some []) [])
   \<and> handleChange (Inl ''a.b'') JUndefined None
       (RecordJSON None (Some [(''a.b'', JStr ''x'')]) (Some []) (Some []) [])
     = Inr (RecordJSON None (Some [(''a.b'', JStr ''x'')]) (Some []) (Some []) [])
   \<and> map_of (orEmpty (params (RecordJSON None (Some []) (Some []) (Some []) []))) ''a.b'' = None
   \<and> map_of (orEmpty (populated (RecordJSON None (Some []) (Some []) (Some []) []))) ''a.b'' = None
   \<and> map_of (orEmpty (params
         (RecordJSON None (Some [(''a.b'', JStr ''x'')]) (Some []) (Some []) []))) ''a.b''
     = Some (JStr ''x'')
   \<and> handleChange (Inl ''a.b'') (JStr ''x'') None
       (RecordJSON None (Some [(''a.c'', JStr ''keep'')]) (Some []) (Some []) [])
     = Inr (RecordJSON None (Some [(''a.c'', JStr ''keep''), (''a.b'', JStr ''x'')])
         (Some []) (Some []) [])
   \<and> handleChange (Inl ''a.b'') JUndefined None
       (RecordJSON None (Some [(''a.c'', JStr ''keep''), (''a.b'', JStr ''x'')])
         (Some []) (Some []) [])
     = Inr (RecordJSON None (Some [(''a.c'', JStr ''keep''), (''a.b'', JStr ''x'')])
         (Some []) (Some []) [])
   \<and> map_of (orEmpty (params
         (RecordJSON None (Some [(''a.c'', JStr ''keep'')]) (Some []) (Some []) []))) ''a.b'' = None
   \<and> map_of (orEmpty (params
         (RecordJSON None (Some [(''a.c'', JStr ''keep''), (''a.b'', JStr ''x'')])
           (Some []) (Some []) []))) ''a.b''
     = Some (JStr ''x'')"
  by (simp add: handleChange_def fieldEdit_def returned_def orEmpty_def unflatten_def flatten_def
      newKey_def container_def numeric_def js_in_def assign_def objectPrototype_def)

text \<open>
  C6 (populated pruning). For a record with parameters whose \<open>populated\<close> has an entry for
  \<open>key\<close>, the field edit of \<open>key\<close> with a falsy value returns a record whose \<open>populated\<close>
  has no entry for \<open>key\<close>.
\<close>

theorem clear_prunes_populated:
  assumes "params prev = Some ps" and "populated prev = Some pp" and "key \<in> fst ` set pp"
    and "\<not> truthy val"
  shows "\<exists>r pp'. handleChange (Inl key) val incomingRecord prev = Inr r
           \<and> populated r = Some pp' \<and> key \<notin> fst ` set pp'"
  using assms
  by (simp add: handleChange_def fieldEdit_def Let_def orEmpty_def returned_def delete_notin_dom
      js_in_def)

theorem clear_prunes_populated_witness:
  "\<exists>r pp'. handleChange (Inl ''owner'') JUndefined None
       (RecordJSON (Some ''7'') (Some [(''owner'', JStr ''1'')]) (Some [])
          (Some [(''owner'', RecordJSON (Some ''1'') (Some []) (Some []) (Some []) [])]) []) = Inr r
     \<and> populated r = Some pp' \<and> ''owner'' \<notin> fst ` set pp'"
  using clear_prunes_populated [of
      "RecordJSON (Some ''7'') (Some [(''owner'', JStr ''1'')]) (Some [])
          (Some [(''owner'', RecordJSON (Some ''1'') (Some []) (Some []) (Some []) [])]) []"
      "[(''owner'', JStr ''1'')]"
      "[(''owner'', RecordJSON (Some ''1'') (Some []) (Some []) (Some []) [])]"
      "''owner''" JUndefined None]
  by simp

text \<open>
  A path that names a property of \<^verbatim>\<open>Object.prototype\<close> is found by \<^verbatim>\<open>in\<close> in every
  copy: clearing it allocates a new \<open>populated\<close> object although no entry is removed.
\<close>

lemma inherited_name_allocates:
  "fieldEdit_populated ''constructor'' JUndefined None [[]] (Some 0) = ([[], []], Some 1)"
  by (simp add: fieldEdit_populated_def js_in_def objectPrototype_def)

text \<open>
  C7 (field-edit frame), as amended. A field edit that returns a record leaves \<open>errors\<close>, the
  id and every further field as they were, for every path. For the identity of \<open>populated\<close>,
  let \<open>p\<close> be the reference held by the previous record in a store \<open>h\<close>. The edit mutates
  no object of \<open>h\<close>; the reference \<open>p'\<close> of the returned record stands for its
  \<open>populated\<close>; \<open>p'\<close> is either \<open>p\<close> itself, and then \<open>populated\<close> is as before, or the
  newly allocated copy. For a path that is not the name of a property of
  \<^verbatim>\<open>Object.prototype\<close>, \<open>p'\<close> is \<open>p\<close> exactly when the edit neither removed the entry of
  the path (a falsy value for a populated path) nor assigned one (a truthy value together
  with a sub-record); otherwise \<open>p'\<close> is the copy, whether or not the assigned sub-record
  differs from the one stored before.
\<close>

theorem fieldEdit_frame:
  assumes "handleChange (Inl key) val incomingRecord prev = Inr r"
    and "refers h p (populated prev)"
    and "fieldEdit_populated key val incomingRecord h p = (h', p')"
  shows "errors r = errors prev \<and> id_field r = id_field prev \<and> others r = others prev
     \<and> refers h' p' (populated r)
     \<and> (\<forall>a < length h. h' ! a = h ! a)
     \<and> (p' \<noteq> p \<longrightarrow> p' = Some (length h))
     \<and> (p' = p \<longrightarrow> populated r = populated prev)
     \<and> (key \<notin> set objectPrototype \<longrightarrow>
          (p' = p \<longleftrightarrow>
             \<not> ((\<not> truthy val \<and> key \<in> fst ` set (orEmpty (populated prev)))
                \<or> (truthy val \<and> incomingRecord \<noteq> None))))"
proof -
  let ?modified = "(\<not> truthy val \<and> js_in key (orEmpty (populated prev)))
             \<or> (truthy val \<and> incomingRecord \<noteq> None)"
  let ?copy = "if \<not> truthy val then AList.delete key (orEmpty (populated prev))
             else assign key (the incomingRecord) (orEmpty (populated prev))"
  from assms(1) obtain ps where ps: "params prev = Some ps"
    by (auto simp: handleChange_def fieldEdit_def split: option.splits)
  have content: "(case p of None \<Rightarrow> [] | Some a \<Rightarrow> h ! a) = orEmpty (populated prev)"
    using assms(2) by (auto simp: refers_def orEmpty_def split: option.splits)
  have valid: "p \<noteq> Some (length h)"
    using assms(2) by (auto simp: refers_def split: option.splits)
  have r: "populated r = (if ?modified then Some ?copy else populated prev)"
    "errors r = errors prev" "id_field r = id_field prev" "others r = others prev"
  proof -
    have "fieldEdit key val incomingRecord prev = Inr (returned prev
            (if \<not> truthy val then AList.delete key (unflatten ps)
             else assign key val (unflatten ps)) ?modified ?copy)"
      by (simp add: fieldEdit_result [OF ps])
    with assms(1) have "r = returned prev
            (if \<not> truthy val then AList.delete key (unflatten ps)
             else assign key val (unflatten ps)) ?modified ?copy"
      by (simp add: handleChange_def)
    then show "populated r = (if ?modified then Some ?copy else populated prev)"
      "errors r = errors prev" "id_field r = id_field prev" "others r = others prev"
      by (simp_all add: returned_def)
  qed
  have hp: "h' = h @ [if ?modified then ?copy else orEmpty (populated prev)]"
    "p' = (if ?modified then Some (length h) else p)"
  proof -
    have "(h', p') = (h @ [if ?modified then ?copy else orEmpty (populated prev)],
                      if ?modified then Some (length h) else p)"
      unfolding assms(3) [symmetric] fieldEdit_populated_cases content
      by (cases "truthy val"; cases incomingRecord;
          cases "js_in key (orEmpty (populated prev))"; simp)
    then show "h' = h @ [if ?modified then ?copy else orEmpty (populated prev)]"
      "p' = (if ?modified then Some (length h) else p)"
      by simp_all
  qed
  have frame: "\<forall>a < length h. h' ! a = h ! a"
    by (simp add: hp(1) nth_append)
  have "refers h' p' (populated r)"
  proof (cases ?modified)
    case True
    then show ?thesis by (simp add: refers_def r(1) hp)
  next
    case False
    then show ?thesis using assms(2)
      by (auto simp: refers_def r(1) hp nth_append split: option.splits)
  qed
  moreover have "p' = p \<longleftrightarrow> \<not> ?modified" using valid by (auto simp: hp(2))
  then have "key \<notin> set objectPrototype \<longrightarrow>
          (p' = p \<longleftrightarrow>
             \<not> ((\<not> truthy val \<and> key \<in> fst ` set (orEmpty (populated prev)))
                \<or> (truthy val \<and> incomingRecord \<noteq> None)))"
    by (simp add: js_in_own)
  moreover have "p' \<noteq> p \<longrightarrow> p' = Some (length h)" by (auto simp: hp(2))
  moreover have "p' = p \<longrightarrow> populated r = populated prev" using valid by (auto simp: hp(2) r(1))
  ultimately show ?thesis using r(2-4) frame by blast
qed

theorem fieldEdit_frame_witness:
  "refers [[(''owner'', RecordJSON (Some ''1'') (Some []) (Some []) (Some []) [])]] (Some 0)
     (Some [(''owner'', RecordJSON (Some ''1'') (Some []) (Some []) (Some []) [])])
   \<and> snd (fieldEdit_populated ''name'' (JStr ''Bob'') None
        [[(''owner'', RecordJSON (Some ''1'') (Some []) (Some []) (Some []) [])]] (Some 0)) = Some 0
   \<and> snd (fieldEdit_populated ''owner'' JUndefined None
        [[(''owner'', RecordJSON (Some ''1'') (Some []) (Some []) (Some []) [])]] (Some 0)) = Some 1"
  using fieldEdit_frame [of "''name''" "JStr ''Bob''" None
      "RecordJSON (Some ''7'') (Some []) (Some [])
         (Some [(''owner'', RecordJSON (Some ''1'') (Some []) (Some []) (Some []) [])]) []"
      "RecordJSON (Some ''7'') (Some [(''name'', JStr ''Bob'')]) (Some [])
         (Some [(''owner'', RecordJSON (Some ''1'') (Some []) (Some []) (Some []) [])]) []"
      "[[(''owner'', RecordJSON (Some ''1'') (Some []) (Some []) (Some []) [])]]" "Some 0"
      "[[(''owner'', RecordJSON (Some ''1'') (Some []) (Some []) (Some []) [])],
        [(''owner'', RecordJSON (Some ''1'') (Some []) (Some []) (Some []) [])]]" "Some 0"]
  by (simp add: refers_def fieldEdit_populated_def handleChange_def fieldEdit_def returned_def
      orEmpty_def unflatten_def flatten_def newKey_def js_in_def assign_def objectPrototype_def)

text \<open>
  The claim as stated fails for an edit that supplies the sub-record already stored under the
  path: no entry is added or removed and the mapping is the same as before, yet the returned
  record refers to the newly allocated copy.
\<close>

theorem fieldEdit_identity_counterexample:
  "refers [[(''owner'', RecordJSON (Some ''1'') (Some []) (Some []) (Some []) [])]] (Some 0)
     (populated (RecordJSON (Some ''7'') (Some [(''owner'', JStr ''1'')]) (Some [])
         (Some [(''owner'', RecordJSON (Some ''1'') (Some []) (Some []) (Some []) [])]) []))
   \<and> handleChange (Inl ''owner'') (JStr ''1'')
       (Some (RecordJSON (Some ''1'') (Some []) (Some []) (Some []) []))
       (RecordJSON (Some ''7'') (Some [(''owner'', JStr ''1'')]) (Some [])
         (Some [(''owner'', RecordJSON (Some ''1'') (Some []) (Some []) (Some []) [])]) [])
     = Inr (RecordJSON (Some ''7'') (Some [(''owner'', JStr ''1'')]) (Some [])
         (Some [(''owner'', RecordJSON (Some ''1'') (Some []) (Some []) (Some []) [])]) [])
   \<and> fieldEdit_populated ''owner'' (JStr ''1'')
       (Some (RecordJSON (Some ''1'') (Some []) (Some []) (Some []) []))
       [[(''owner'', RecordJSON (Some ''1'') (Some []) (Some []) (Some []) [])]] (Some 0)
     = ([[(''owner'', RecordJSON (Some ''1'') (Some []) (Some []) (Some []) [])],
         [(''owner'', RecordJSON (Some ''1'') (Some []) (Some []) (Some []) [])]], Some 1)"
  by (simp add: refers_def fieldEdit_populated_def handleChange_def fieldEdit_def returned_def
      orEmpty_def unflatten_def flatten_def newKey_def js_in_def assign_def objectPrototype_def)

text \<open>
  C8 (change disambiguation). \<open>handleChange\<close> replaces the record by its first argument
  when the value is undefined, the first argument is an object and that object has
  \<open>params\<close>. A string as first argument is always the path of a single-field edit, and an
  object in any other case goes through the single-field edit too, as the key it converts to.
\<close>

theorem handleChange_disambiguation:
  "(val = JUndefined \<and> propertyOrRecord = Inr r \<and> params r \<noteq> None
      \<longrightarrow> handleChange propertyOrRecord val incomingRecord prev = Inr r)
   \<and> (propertyOrRecord = Inl key
      \<longrightarrow> handleChange propertyOrRecord val incomingRecord prev
          = fieldEdit key val incomingRecord prev)
   \<and> (propertyOrRecord = Inr r \<and> (val \<noteq> JUndefined \<or> params r = None)
      \<longrightarrow> handleChange propertyOrRecord val incomingRecord prev
          = fieldEdit objectKey val incomingRecord prev)"
  by (auto simp: handleChange_def)

theorem handleChange_disambiguation_witness:
  "handleChange (Inr (RecordJSON (Some ''9'') (Some [(''name'', JStr ''Bob'')]) None None []))
       JUndefined None (RecordJSON (Some ''7'') (Some []) (Some []) (Some []) [])
     = Inr (RecordJSON (Some ''9'') (Some [(''name'', JStr ''Bob'')]) None None [])
   \<and> handleChange (Inl ''name'') (JStr ''Bob'') None
         (RecordJSON (Some ''7'') (Some []) (Some []) (Some []) [])
     = fieldEdit ''name'' (JStr ''Bob'') None (RecordJSON (Some ''7'') (Some []) (Some []) (Some []) [])
   \<and> handleChange (Inr (RecordJSON (Some ''9'') None None None [])) JUndefined None
         (RecordJSON (Some ''7'') (Some []) (Some []) (Some []) [])
     = fieldEdit objectKey JUndefined None (RecordJSON (Some ''7'') (Some []) (Some []) (Some []) [])"
  using handleChange_disambiguation [of JUndefined
      "Inr (RecordJSON (Some ''9'') (Some [(''name'', JStr ''Bob'')]) None None [])"
      "RecordJSON (Some ''9'') (Some [(''name'', JStr ''Bob'')]) None None []"
      None "RecordJSON (Some ''7'') (Some []) (Some []) (Some []) []" "''name''"]
    handleChange_disambiguation [of "JStr ''Bob''" "Inl ''name''" undefined
      None "RecordJSON (Some ''7'') (Some []) (Some []) (Some []) []" "''name''"]
    handleChange_disambiguation [of JUndefined
      "Inr (RecordJSON (Some ''9'') None None None [])"
      "RecordJSON (Some ''9'') None None None []"
      None "RecordJSON (Some ''7'') (Some []) (Some []) (Some []) []" "''name''"]
  by simp

section \<open>The shape of the record\<close>










section \<open>Submission\<close>

lemma progress_events_frame:
  "record_state (fold onTransport (map (\<lambda>(l, t). UploadProgress l t) ps) s) = record_state s
   \<and> notices (fold onTransport (map (\<lambda>(l, t). UploadProgress l t) ps) s) = notices s"
  by (induction ps arbitrary: s) (auto split: prod.splits)

text \<open>
  C3 (failure atomicity). A submission is started from any state, the transport reports any
  upload progress events and then rejects the promise. Afterwards \<open>loading\<close> is false,
  \<open>progress\<close> is 0, the record is the one from before the submission, and the notifier
  has received exactly one more notice, the fixed one of type \<^verbatim>\<open>error\<close>. In any state
  \<open>st'\<close> at all, the \<^verbatim>\<open>catch\<close> callback leaves the record as it finds it.
\<close>

theorem submit_rejected_atomic:
  "loading (fold onTransport (map (\<lambda>(l, t). UploadProgress l t) ps @ [Rejected])
              (handleSubmit f rid customParams st)) = False
   \<and> progress (fold onTransport (map (\<lambda>(l, t). UploadProgress l t) ps @ [Rejected])
              (handleSubmit f rid customParams st)) = Fin 0
   \<and> record_state (fold onTransport (map (\<lambda>(l, t). UploadProgress l t) ps @ [Rejected])
              (handleSubmit f rid customParams st)) = record_state st
   \<and> notices (fold onTransport (map (\<lambda>(l, t). UploadProgress l t) ps @ [Rejected])
              (handleSubmit f rid customParams st)) = notices st @ [errorNotice]
   \<and> type errorNotice = ''error''
   \<and> record_state (onTransport Rejected st') = record_state st'"
  by (simp add: progress_events_frame handleSubmit_def Let_def errorNotice_def)

theorem submit_rejected_atomic_witness:
  "map type (notices (fold onTransport [UploadProgress 25 100, Rejected]
      (handleSubmit (\<lambda>r. []) ''users'' []
         (useRecord (Some (RecordJSON (Some ''7'') (Some []) (Some []) (Some []) [])))))) = [''error'']
   \<and> record_state (fold onTransport [UploadProgress 25 100, Rejected]
      (handleSubmit (\<lambda>r. []) ''users'' []
         (useRecord (Some (RecordJSON (Some ''7'') (Some []) (Some []) (Some []) [])))))
     = RecordJSON (Some ''7'') (Some []) (Some []) (Some []) []"
  using submit_rejected_atomic [of "[(25, 100)]" "\<lambda>r. []" "''users''" "[]"
      "useRecord (Some (RecordJSON (Some ''7'') (Some []) (Some []) (Some []) []))"
      "useRecord None"]
  by (simp add: useRecord_def useEffect_initialRecord_def)

text \<open>
  C4 (dispatch selection), as amended. Every call of \<open>handleSubmit\<close> hands exactly one
  request to the API client, and the request targets the given resource. It is the
  \<^verbatim>\<open>edit\<close> record action addressed by the record's id when the id is a non-empty
  string; when the id is undefined or the empty string it is the \<^verbatim>\<open>new\<close> resource
  action.
\<close>

theorem submit_dispatches_one_request:
  "\<exists>req. requests (handleSubmit f rid customParams st) = requests st @ [req]
     \<and> resourceId req = rid
     \<and> (if id_field (record_state st) \<notin> {None, Some []}
        then apiMethod req = RecordAction \<and> actionName req = ''edit''
             \<and> recordId req = id_field (record_state st)
        else apiMethod req = ResourceAction \<and> actionName req = ''new'' \<and> recordId req = None)"
  by (auto simp: handleSubmit_def Let_def split: option.splits)

theorem submit_dispatches_one_request_witness:
  "map actionName (requests (handleSubmit (\<lambda>r. []) ''users'' []
      (useRecord (Some (RecordJSON (Some ''7'') (Some []) (Some []) (Some []) []))))) = [''edit'']"
  using submit_dispatches_one_request [of "\<lambda>r. []" "''users''" "[]"
      "useRecord (Some (RecordJSON (Some ''7'') (Some []) (Some []) (Some []) []))"]
  by (auto simp: useRecord_def useEffect_initialRecord_def)

text \<open>
  The claim as stated fails for a record whose id is set to the empty string: the test
  \<^verbatim>\<open>record.id ? ... : ...\<close> is false for it, and the request is the \<^verbatim>\<open>new\<close> action.
\<close>

theorem submit_empty_id_counterexample:
  "id_field (record_state (useRecord (Some (RecordJSON (Some []) (Some []) (Some []) (Some []) []))))
     \<noteq> None
   \<and> map actionName (requests (handleSubmit (\<lambda>r. []) ''users'' []
        (useRecord (Some (RecordJSON (Some []) (Some []) (Some []) (Some []) []))))) = [''new'']"
  by (simp add: handleSubmit_def useRecord_def useEffect_initialRecord_def)

section \<open>Merging the server's record\<close>

lemma map_of_overlay: "map_of (overlay a b) = map_of a ++ map_of b"
  by (simp add: overlay_def merge_conv')

text \<open>
  C5 (merge additivity on populated). As a mapping, the merged \<open>populated\<close> is the previous
  one overlaid with the server record's, so the server wins on a common key and a key that
  only the previous record has keeps its entry; \<open>params\<close> and \<open>errors\<close> are the server
  record's, and the id is the server record's if it has one and the previous one otherwise.
\<close>

theorem merge_populated_additive:
  "map_of (orEmpty (populated (mergeRecordResponse previous response)))
     = map_of (orEmpty (populated previous))
       ++ map_of (orEmpty (populated (record' response)))
   \<and> params (mergeRecordResponse previous response) = params (record' response)
   \<and> errors (mergeRecordResponse previous response) = errors (record' response)
   \<and> id_field (mergeRecordResponse previous response)
       = (case id_field (record' response) of
            Some i \<Rightarrow> Some i | None \<Rightarrow> id_field previous)
   \<and> (\<forall>k v. map_of (orEmpty (populated previous)) k = Some v
          \<and> k \<notin> fst ` set (orEmpty (populated (record' response)))
        \<longrightarrow> map_of (orEmpty (populated (mergeRecordResponse previous response))) k = Some v)"
  by (auto simp: mergeRecordResponse_def Let_def map_of_overlay orEmpty_def map_add_Some_iff
      map_of_eq_None_iff split: option.splits)

theorem merge_populated_additive_witness:
  "map_of (orEmpty (populated (mergeRecordResponse
      (RecordJSON (Some ''7'') (Some []) (Some [])
         (Some [(''owner'', RecordJSON (Some ''1'') (Some []) (Some []) (Some []) [])]) [])
      \<lparr>record' = RecordJSON None (Some [(''name'', JStr ''Alice'')]) (Some []) (Some []) [],
       notice = None\<rparr>))) ''owner''
   = Some (RecordJSON (Some ''1'') (Some []) (Some []) (Some []) [])"
  using merge_populated_additive [of
      "RecordJSON (Some ''7'') (Some []) (Some [])
         (Some [(''owner'', RecordJSON (Some ''1'') (Some []) (Some []) (Some []) [])]) []"
      "\<lparr>record' = RecordJSON None (Some [(''name'', JStr ''Alice'')]) (Some []) (Some []) [],
       notice = None\<rparr>"]
  by (simp add: orEmpty_def)

section \<open>Upload progress\<close>

text \<open>
  \<open>exponent\<close> normalises: unless it is cut off at \<open>-1074\<close>, the scaled number has exactly 53
  bits before the point.
\<close>

lemma pow_bitlen:
  assumes "0 < (n::int)"
  shows "(2::rat) powi (bitlen n - 1) \<le> of_int n" "of_int n < (2::rat) powi (bitlen n)"
proof -
  from bitlen_bounds [OF assms] have a: "2 ^ nat (bitlen n - 1) \<le> n" "n < 2 ^ nat (bitlen n)"
    by auto
  have b: "1 \<le> bitlen n" using assms by (auto simp: bitlen_alt_def)
  have "(2::rat) powi (bitlen n - 1) = 2 ^ nat (bitlen n - 1)"
    using b by (simp add: power_int_nonneg_exp)
  also have "\<dots> = of_int (2 ^ nat (bitlen n - 1))" by simp
  also have "\<dots> \<le> of_int n" using a(1) by (simp only: of_int_le_iff)
  finally show "(2::rat) powi (bitlen n - 1) \<le> of_int n" .
  have "(of_int n :: rat) < of_int (2 ^ nat (bitlen n))" using a(2) by (simp only: of_int_less_iff)
  also have "\<dots> = 2 powi (bitlen n)" using b by (simp add: power_int_nonneg_exp)
  finally show "of_int n < (2::rat) powi (bitlen n)" .
qed

lemma exponent_bounds:
  assumes "0 < x"
  shows "\<exists>k. exponent x = max (- 1074) k \<and> 2 powi (k + 52) \<le> x \<and> x < 2 powi (k + 53)"
proof -
  obtain n d where q: "quotient_of x = (n, d)" by (cases "quotient_of x")
  have d: "0 < d" using q by (rule quotient_of_denom_pos)
  have x: "x = of_int n / of_int d" using q by (rule quotient_of_div)
  have n: "0 < n" using assms d x by (simp add: zero_less_divide_iff)
  define k0 where "k0 = bitlen n - bitlen d - 53"
  note bn = pow_bitlen [OF n] and bd = pow_bitlen [OF d]
  have dpos: "(0::rat) < of_int d" using d by simp
  have lo: "2 powi (k0 + 52) < x"
  proof -
    have "(2::rat) powi (k0 + 52) * of_int d < 2 powi (k0 + 52) * 2 powi (bitlen d)"
      using bd(2) by (simp add: mult_strict_left_mono)
    also have "\<dots> = 2 powi (bitlen n - 1)"
      by (simp add: k0_def power_int_add [symmetric])
    also have "\<dots> \<le> of_int n" by (rule bn(1))
    finally show ?thesis using dpos by (simp add: x pos_less_divide_eq)
  qed
  have hi: "x < 2 powi (k0 + 54)"
  proof -
    have "(of_int n :: rat) < 2 powi (bitlen n)" by (rule bn(2))
    also have "\<dots> = 2 powi (k0 + 54) * 2 powi (bitlen d - 1)"
      by (simp add: k0_def power_int_add [symmetric])
    also have "\<dots> \<le> 2 powi (k0 + 54) * of_int d"
      using bd(1) by (simp add: mult_left_mono)
    finally show ?thesis using dpos by (simp add: x pos_divide_less_eq)
  qed
  have p: "(2::rat) powi (k0 + 53) = 2 ^ 53 * 2 powi k0" "(2::rat) powi (k0 + 1 + 52) = 2 powi (k0 + 53)"
    "(2::rat) powi (k0 + 1 + 53) = 2 powi (k0 + 54)"
    by (simp_all add: power_int_add algebra_simps)
  have e: "exponent x = max (- 1074) (if 2 ^ 53 \<le> x / 2 powi k0 then k0 + 1 else k0)"
    by (simp add: exponent_def q k0_def)
  show ?thesis
  proof (cases "2 ^ 53 \<le> x / 2 powi k0")
    case True
    then have "2 powi (k0 + 53) \<le> x" by (simp add: p(1) pos_le_divide_eq)
    then have a: "2 powi (k0 + 1 + 52) \<le> x" by (simp only: p(2))
    have b: "x < 2 powi (k0 + 1 + 53)" using hi by (simp only: p(3))
    from e True have "exponent x = max (- 1074) (k0 + 1)" by simp
    with a b show ?thesis by blast
  next
    case False
    then have a: "x < 2 powi (k0 + 53)" by (simp add: p(1) pos_le_divide_eq not_le)
    from lo have b: "2 powi (k0 + 52) \<le> x" by simp
    from e False have "exponent x = max (- 1074) k0" by simp
    with a b show ?thesis by blast
  qed
qed

lemma exponent_le:
  assumes "0 < x" and "x < 2 powi j"
  shows "exponent x \<le> max (- 1074) (j - 53)"
proof -
  from exponent_bounds [OF assms(1)] obtain k where
    k: "exponent x = max (- 1074) k" "2 powi (k + 52) \<le> x" by blast
  from k(2) assms(2) have "(2::rat) powi (k + 52) < 2 powi j" by simp
  then have "k + 52 < j"
    using power_int_increasing [of j "k + 52" "2::rat"] by (cases "k + 52 < j") auto
  then show ?thesis using k(1) by simp
qed

lemma nearest_even_close: "\<bar>of_int (nearest_even y) - y\<bar> \<le> 1 / 2"
proof -
  have "of_int \<lfloor>y\<rfloor> \<le> y" "y < of_int \<lfloor>y\<rfloor> + 1" by linarith+
  then show ?thesis by (auto simp: nearest_even_def Let_def abs_le_iff)
qed

lemma nearest_even_ge: "of_int m \<le> y \<Longrightarrow> m \<le> nearest_even y"
proof -
  assume "of_int m \<le> y"
  then have "m \<le> \<lfloor>y\<rfloor>" by (simp add: le_floor_iff)
  then show ?thesis by (auto simp: nearest_even_def Let_def)
qed

lemma nearest_even_of_int: "nearest_even (of_int m) = m"
  by (simp add: nearest_even_def)

lemma fl_scaled:
  assumes "0 < x" and "exponent x \<le> 0"
  shows "fl x = (let s = 2 ^ nat (- exponent x); v = of_int (nearest_even (x * s)) / s
                 in if 2 ^ 1024 \<le> v then Infinite else Finite v)"
proof -
  have "(2::rat) powi (exponent x) = 1 / 2 ^ nat (- exponent x)"
    using assms(2) by (simp add: power_int_def field_simps)
  then show ?thesis using assms(1) by (simp add: fl_def Let_def)
qed

lemma fl_of_nat:
  assumes "n < 2 ^ 53"
  shows "fl (of_nat n) = Finite (of_nat n)"
proof (cases "n = 0")
  case True
  then show ?thesis by (simp add: fl_def)
next
  case False
  define x :: rat where "x = of_nat n"
  have pos: "0 < x" using False by (simp add: x_def)
  have "x < 2 ^ 53" using assms unfolding x_def by (metis of_nat_less_iff of_nat_numeral of_nat_power)
  then have "x < 2 powi 53" by simp
  from exponent_le [OF pos this] have k: "exponent x \<le> 0" by simp
  define s :: int where "s = 2 ^ nat (- exponent x)"
  have xs: "x * 2 ^ nat (- exponent x) = of_int (int n * s)" by (simp add: x_def s_def)
  have v: "of_int (nearest_even (x * 2 ^ nat (- exponent x))) / 2 ^ nat (- exponent x) = x"
    unfolding xs nearest_even_of_int by (simp add: x_def s_def)
  have "\<not> (2 ^ 1024 \<le> x)" using \<open>x < 2 ^ 53\<close> by (simp add: not_le)
  then show ?thesis
    using fl_scaled [OF pos k] by (simp add: Let_def v x_def [symmetric])
qed

lemma fl_percent:
  fixes a T :: nat
  assumes "0 < T" and "T < 2 ^ 46" and "0 < a" and "a \<le> 100 * T"
  shows "\<exists>v. fl (of_nat a / of_nat T) = Finite v \<and> round v = round (of_nat a / of_nat T :: rat)"
proof -
  define x :: rat where "x = of_nat a / of_nat T"
  define n where "n = round x"
  have Tpos: "(0::rat) < of_nat T" using assms(1) by simp
  have pos: "0 < x" using assms(1,3) by (simp add: x_def)
  have "of_nat a \<le> (100 :: rat) * of_nat T"
    using assms(4) by (metis of_nat_le_iff of_nat_mult of_nat_numeral)
  then have x100: "x \<le> 100" using Tpos by (simp add: x_def pos_divide_le_eq)
  then have "x < 2 powi 7" by simp
  from exponent_le [OF pos this] have k: "exponent x \<le> - 46" by simp
  define j where "j = nat (- exponent x)"
  define s :: rat where "s = 2 ^ j"
  define m where "m = nearest_even (x * s)"
  define v where "v = of_int m / s"
  have j: "46 \<le> j" using k by (simp add: j_def)
  have spos: "0 < s" by (simp add: s_def)
  have s47: "2 ^ 47 \<le> 2 * s"
  proof -
    have "(2::rat) ^ 46 \<le> 2 ^ j" using j by (intro power_increasing) auto
    then show ?thesis by (simp add: s_def)
  qed
  have close: "\<bar>v - x\<bar> \<le> 1 / (2 * s)"
  proof -
    have a: "\<bar>of_int m - x * s\<bar> \<le> 1 / 2" unfolding m_def by (rule nearest_even_close)
    have "v - x = (of_int m - x * s) / s" using spos by (simp add: v_def field_simps)
    then have "\<bar>v - x\<bar> = \<bar>of_int m - x * s\<bar> / s" using spos by simp
    also have "\<dots> \<le> (1 / 2) / s" using a spos by (intro divide_right_mono) simp_all
    also have "\<dots> = 1 / (2 * s)" by simp
    finally show ?thesis .
  qed
  have lower: "of_int n - 1 / 2 \<le> v"
  proof -
    obtain j' where j': "j = Suc j'" using j by (cases j) auto
    have "of_int n - 1 / 2 \<le> x" using of_int_round_le [of x] by (simp add: n_def)
    then have "(of_int n - 1 / 2) * s \<le> x * s" using spos by (simp add: mult_right_mono)
    moreover have "(of_int n - 1 / 2) * s = of_int ((2 * n - 1) * 2 ^ j')"
      by (simp add: s_def j' algebra_simps)
    ultimately have "(2 * n - 1) * 2 ^ j' \<le> m"
      unfolding m_def by (intro nearest_even_ge) simp
    then have "(of_int ((2 * n - 1) * 2 ^ j') :: rat) \<le> of_int m" by (simp only: of_int_le_iff)
    then have "of_int ((2 * n - 1) * 2 ^ j') / s \<le> of_int m / s"
      using spos by (simp add: divide_right_mono)
    moreover have "of_int ((2 * n - 1) * 2 ^ j') / s = of_int n - 1 / 2"
      by (simp add: s_def j' field_simps)
    ultimately show ?thesis by (simp add: v_def)
  qed
  have upper: "v < of_int n + 1 / 2"
  proof -
    have "x < of_int n + 1 / 2" using of_int_round_gt [of x] by (simp add: n_def)
    then have "of_nat a < (of_int n + 1 / 2) * (of_nat T :: rat)"
      using Tpos by (simp add: x_def pos_divide_less_eq)
    then have "(2::rat) * of_nat a < of_int ((2 * n + 1) * int T)"
      by (simp add: algebra_simps)
    then have "(of_int (2 * int a) :: rat) < of_int ((2 * n + 1) * int T)" by simp
    then have "2 * int a < (2 * n + 1) * int T" by (simp only: of_int_less_iff)
    then have "2 * int a + 1 \<le> (2 * n + 1) * int T" by simp
    then have "(of_int (2 * int a + 1) :: rat) \<le> of_int ((2 * n + 1) * int T)"
      by (simp only: of_int_le_iff)
    then have "2 * of_nat a + 1 \<le> (2 * of_int n + 1) * (of_nat T :: rat)" by simp
    then have "x + 1 / (2 * of_nat T) \<le> of_int n + 1 / 2"
      using Tpos by (simp add: x_def field_simps)
    moreover have "1 / (2 * s) < 1 / (2 * of_nat T :: rat)"
    proof -
      have "(of_nat T :: rat) < 2 ^ 46"
        using assms(2) by (metis of_nat_less_iff of_nat_numeral of_nat_power)
      then have "2 * (of_nat T :: rat) < 2 * s" using s47 by simp
      then show ?thesis using Tpos by (simp add: frac_less2)
    qed
    moreover have "v \<le> x + 1 / (2 * s)" using close by (simp add: abs_le_iff)
    ultimately show ?thesis by linarith
  qed
  have rv: "round v = n"
    using lower upper by (intro round_unique) (simp_all add: algebra_simps)
  have "v < 2 ^ 1024"
  proof -
    have "v \<le> x + 1 / (2 * s)" using close by (simp add: abs_le_iff)
    moreover have "1 / (2 * s) \<le> 1" using s47 by (simp add: s_def)
    ultimately have "v \<le> 101" using x100 by simp
    then show ?thesis by (rule le_less_trans) simp
  qed
  then have "fl x = Finite v"
    using fl_scaled [of x] pos k by (simp add: Let_def v_def m_def s_def j_def)
  with rv show ?thesis by (simp add: x_def n_def)
qed

lemma round_rat_real: "round (of_nat a / of_nat b :: rat) = round (real a / real b)"
proof -
  have "real a / real b + 1 / 2 = of_rat (of_nat a / of_nat b + 1 / 2)"
    by (simp add: of_rat_add of_rat_divide)
  then show ?thesis by (simp only: round_def of_rat_floor)
qed

lemma roundedPercent_exact:
  assumes "0 < T" and "T < 2 ^ 46" and "L \<le> T"
  shows "roundedPercent L T = Fin (round (real (L * 100) / real T))"
proof -
  have T53: "T < 2 ^ 53" using assms(2) by (rule less_trans) simp
  have L53: "L < 2 ^ 53" using assms(3) T53 by simp
  have "L * 100 \<le> T * 100" using assms(3) by simp
  also have "\<dots> < 2 ^ 46 * 100" using assms(2) by simp
  also have "\<dots> < (2 ^ 53 :: nat)" by simp
  finally have P53: "L * 100 < 2 ^ 53" .
  have num: "multiply (toNumber L) (Finite 100) = Finite (of_nat (L * 100))"
    using fl_of_nat [OF L53] fl_of_nat [OF P53] by (simp add: toNumber_def)
  have den: "toNumber T = Finite (of_nat T)" using fl_of_nat [OF T53] by (simp add: toNumber_def)
  have q: "\<exists>v. fl (of_nat (L * 100) / of_nat T) = Finite v
            \<and> round v = round (of_nat (L * 100) / of_nat T :: rat)"
  proof (cases "L = 0")
    case True
    then show ?thesis by (simp add: fl_def)
  next
    case False
    then show ?thesis using assms by (intro fl_percent) simp_all
  qed
  then obtain v where v: "fl (of_nat (L * 100) / of_nat T) = Finite v"
    "round v = round (of_nat (L * 100) / of_nat T :: rat)" by blast
  have "of_nat T \<noteq> (0::rat)" using assms(1) by simp
  then have "roundedPercent L T = math_round (fl (of_nat (L * 100) / of_nat T))"
    unfolding roundedPercent_def num den by (simp only: divide_double.simps if_False)
  also have "\<dots> = Fin (round v)" by (simp only: v(1) math_round.simps)
  also have "\<dots> = Fin (round (real (L * 100) / real T))"
    by (simp only: v(2) round_rat_real)
  finally show ?thesis .
qed

lemma roundedPercent_zero_total:
  assumes "0 < L" and "L < 2 ^ 46"
  shows "roundedPercent L 0 = PosInfinity"
proof -
  have "L < 2 ^ 53" using assms(2) by (rule less_trans) simp
  moreover have "L * 100 < 2 ^ 53"
  proof -
    have "L * 100 < 2 ^ 46 * 100" using assms(2) by simp
    also have "\<dots> < (2 ^ 53 :: nat)" by simp
    finally show ?thesis .
  qed
  ultimately have "multiply (toNumber L) (Finite 100) = Finite (of_nat (L * 100))"
    using fl_of_nat [of L] fl_of_nat [of "L * 100"] by (simp add: toNumber_def)
  moreover have "toNumber 0 = Finite 0" by (simp add: toNumber_def fl_def)
  ultimately show ?thesis using assms(1) by (simp add: roundedPercent_def)
qed

lemma exponent_eq:
  assumes "0 < x" and "2 powi (k + 52) \<le> x" and "x < 2 powi (k + 53)" and "- 1074 \<le> k"
  shows "exponent x = k"
proof -
  from exponent_bounds [OF assms(1)] obtain k' where
    k': "exponent x = max (- 1074) k'" "2 powi (k' + 52) \<le> x" "x < 2 powi (k' + 53)" by blast
  have "(2::rat) powi (k' + 52) < 2 powi (k + 53)" using k'(2) assms(3) by simp
  then have a: "k' + 52 < k + 53"
    using power_int_increasing [of "k + 53" "k' + 52" "2::rat"] by (cases "k' + 52 < k + 53") auto
  have "(2::rat) powi (k + 52) < 2 powi (k' + 53)" using k'(3) assms(2) by simp
  then have b: "k + 52 < k' + 53"
    using power_int_increasing [of "k' + 53" "k + 52" "2::rat"] by (cases "k + 52 < k' + 53") auto
  from a b have "k' = k" by simp
  then show ?thesis using k'(1) assms(4) by simp
qed

lemma fl_value:
  assumes "0 < x" and "exponent x = - int j" and "nearest_even (x * 2 ^ j) = m"
    and "of_int m / 2 ^ j < (2::rat) ^ 1024"
  shows "fl x = Finite (of_int m / 2 ^ j)"
  using fl_scaled [of x] assms by (simp add: Let_def not_le [symmetric])

lemma fl_just_below_half:
  "fl (4538783999466100 / 70368744177769) = Finite (129 / 2)"
proof -
  have e: "exponent (4538783999466100 / 70368744177769) = - int 46"
    by (rule exponent_eq) simp_all
  have f: "\<lfloor>319388530136104648059545190400 / 70368744177769 :: rat\<rfloor> = 4538783999459327"
    by (simp add: floor_eq_iff)
  have n: "nearest_even (4538783999466100 / 70368744177769 * 2 ^ 46) = 4538783999459328"
    by (simp add: nearest_even_def Let_def f)
  have "fl (4538783999466100 / 70368744177769) = Finite (of_int 4538783999459328 / 2 ^ 46)"
    using e n by (rule fl_value [rotated]) simp_all
  then show ?thesis by simp
qed

lemma roundedPercent_just_below_half:
  "roundedPercent 45387839994661 70368744177769 = Fin 65"
  "round (real (45387839994661 * 100) / real 70368744177769) = 64"
proof -
  have a: "multiply (toNumber 45387839994661) (Finite 100) = Finite 4538783999466100"
    using fl_of_nat [of 45387839994661] fl_of_nat [of 4538783999466100]
    by (simp add: toNumber_def)
  have b: "toNumber 70368744177769 = Finite 70368744177769"
    using fl_of_nat [of 70368744177769] by (simp add: toNumber_def)
  show "roundedPercent 45387839994661 70368744177769 = Fin 65"
    unfolding roundedPercent_def a b by (simp add: fl_just_below_half round_def)
  show "round (real (45387839994661 * 100) / real 70368744177769) = 64"
    by (simp add: round_def floor_eq_iff)
qed

lemma round_percent_bounds:
  assumes "0 < T" "L \<le> T"
  shows "0 \<le> round (real (L * 100) / real T) \<and> round (real (L * 100) / real T) \<le> 100"
proof -
  have "real (L * 100) / real T \<le> 100" using assms by (simp add: divide_le_eq)
  then have "round (real (L * 100) / real T) \<le> round (100::real)" by (rule round_mono)
  moreover have "round (0::real) \<le> round (real (L * 100) / real T)"
    by (rule round_mono) simp
  ultimately show ?thesis by simp
qed

lemma sorted_percent:
  "0 < T \<Longrightarrow> sorted ls \<Longrightarrow> sorted (map (\<lambda>l. round (real (l * 100) / real T)) ls)"
  by (induction ls) (auto simp: divide_right_mono intro!: round_mono)

lemma recorded_progress_events:
  "recorded (map (\<lambda>l. UploadProgress l T) ls) st = map (\<lambda>l. roundedPercent l T) ls"
  by (induction ls arbitrary: st) auto

lemma recorded_append:
  "recorded (es @ [e]) st = recorded es st @ [progress (onTransport e (fold onTransport es st))]"
  by (induction es arbitrary: st) auto

text \<open>
  C9 (progress computation), as amended. For upload progress events of one submission with
  the same total \<open>T\<close>, \<open>0 < T < 2 ^ 46\<close>, and loaded byte counts \<open>ls\<close>, none above \<open>T\<close>: the
  progress recorded after each event is \<open>L * 100 / T\<close> rounded to the nearest integer (a half
  upwards), it lies between 0 and 100, and for non-decreasing \<open>ls\<close> the recorded values are
  non-decreasing. The events (25,100), (80,100), (100,100) record 25, 80, 100. The settlement
  of the promise, either way, records 0 in every state and after every sequence of events.
\<close>

theorem progress_recorded:
  assumes "0 < T" and "T < 2 ^ 46" and "sorted ls" and "\<forall>l \<in> set ls. l \<le> T"
  shows "recorded (map (\<lambda>l. UploadProgress l T) ls) st
           = map (\<lambda>l. Fin (round (real (l * 100) / real T))) ls
     \<and> sorted (map (\<lambda>l. round (real (l * 100) / real T)) ls)
     \<and> (\<forall>l \<in> set ls. 0 \<le> round (real (l * 100) / real T)
            \<and> round (real (l * 100) / real T) \<le> 100)
     \<and> recorded [UploadProgress 25 100, UploadProgress 80 100, UploadProgress 100 100,
           Resolved response] st = [Fin 25, Fin 80, Fin 100, Fin 0]
     \<and> recorded [UploadProgress 25 100, UploadProgress 80 100, UploadProgress 100 100,
           Rejected] st = [Fin 25, Fin 80, Fin 100, Fin 0]
     \<and> progress (onTransport (Resolved response') st') = Fin 0
     \<and> progress (onTransport Rejected st') = Fin 0
     \<and> recorded (es @ [Resolved response']) st' = recorded es st' @ [Fin 0]
     \<and> recorded (es @ [Rejected]) st' = recorded es st' @ [Fin 0]"
proof -
  have a: "recorded (map (\<lambda>l. UploadProgress l T) ls) st
             = map (\<lambda>l. Fin (round (real (l * 100) / real T))) ls"
    using assms(1,2,4) by (simp add: recorded_progress_events roundedPercent_exact)
  have b: "sorted (map (\<lambda>l. round (real (l * 100) / real T)) ls)"
    using assms(1,3) by (rule sorted_percent)
  have c: "\<forall>l \<in> set ls. 0 \<le> round (real (l * 100) / real T)
            \<and> round (real (l * 100) / real T) \<le> 100"
    using assms(1,4) round_percent_bounds by blast
  have p: "roundedPercent 25 100 = Fin 25" "roundedPercent 80 100 = Fin 80"
    "roundedPercent 100 100 = Fin 100"
    using roundedPercent_exact [of 100 25] roundedPercent_exact [of 100 80]
      roundedPercent_exact [of 100 100]
    by simp_all
  have d: "recorded [UploadProgress 25 100, UploadProgress 80 100, UploadProgress 100 100,
           Resolved response] st = [Fin 25, Fin 80, Fin 100, Fin 0]"
    by (simp add: p)
  have e: "recorded [UploadProgress 25 100, UploadProgress 80 100, UploadProgress 100 100,
           Rejected] st = [Fin 25, Fin 80, Fin 100, Fin 0]"
    by (simp add: p)
  have f: "progress (onTransport (Resolved response') st') = Fin 0"
    "progress (onTransport Rejected st') = Fin 0"
    by simp_all
  have g: "recorded (es @ [Resolved response']) st' = recorded es st' @ [Fin 0]"
    "recorded (es @ [Rejected]) st' = recorded es st' @ [Fin 0]"
    by (simp_all add: recorded_append)
  from a b c d e f g show ?thesis by blast
qed

theorem progress_recorded_witness:
  "recorded (map (\<lambda>l. UploadProgress l 3) [1, 2, 3]) (useRecord None) = [Fin 33, Fin 67, Fin 100]"
proof -
  have r: "round (100 / 3 :: real) = 33" "round (200 / 3 :: real) = 67"
    by (simp_all add: round_def floor_eq_iff)
  show ?thesis
    using progress_recorded [of 3 "[1, 2, 3]" "useRecord None"] by (simp add: r)
qed

text \<open>
  The claim as stated fails in two ways. For an event whose total is 0, which is what a
  progress event reports when the length is not computable, \<^verbatim>\<open>Math.round(500 / 0)\<close> is
  \<^verbatim>\<open>Infinity\<close>, not an integer between 0 and 100. And for byte counts from \<open>2 ^ 46\<close> on
  the double quotient can round across a half: the exact ratio below rounds to 64, the
  quotient computed in doubles is 64.5 and is rounded to 65.
\<close>

theorem progress_total_zero_counterexample:
  "\<not> (\<exists>p. progress (onTransport (UploadProgress 5 0) (useRecord None)) = Fin p
          \<and> 0 \<le> p \<and> p \<le> 100)
   \<and> progress (onTransport (UploadProgress 45387839994661 70368744177769) (useRecord None))
       = Fin 65
   \<and> round (real (45387839994661 * 100) / real 70368744177769) = 64"
  using roundedPercent_zero_total [of 5] roundedPercent_just_below_half by simp

end
